theory Spec2Isabelle
  imports Complex_Main "HOL-Library.Word"
begin

unbundle bit_operations_syntax

section \<open>The event system of launcho (GameEventSystem.cpp)\<close>

text \<open>
  A shallow embedding of \<^verbatim>\<open>GameEventSystem\<close>: the listener registry, the two event
  queues with the index of the active one, the keyboard translation and the generator of
  callback identifiers. The headers of the class are not among the sources, so the types
  they declare are fixed here from the way the code uses them:
  \<^item> \<^verbatim>\<open>EventID\<close> and \<^verbatim>\<open>EventCallbackID\<close> are printed with \<^verbatim>\<open>%08x\<close>, which takes an
    unsigned int: 32-bit words. The generator of identifiers is written for any width.
  \<^item> \<^verbatim>\<open>StrongEventPtr\<close> is a shared pointer to an event: \<open>None\<close> is the null pointer, which
    the code asserts against and which a moved-from pointer becomes.
  \<^item> \<^verbatim>\<open>EventCallback\<close> is a callable taking the event. It is modelled by a name; what the
    callable does when it is called is given by a \<open>Behaviour\<close>: the calls it makes back
    into the event system.
  \<^item> \<^verbatim>\<open>listeners\<close> is a map from event type to a map from callback identifier to callback.
    The inner map is a list of pairs in the order in which the code iterates over it.
  \<^item> the timer is read through a function: \<open>timer n\<close> is what \<^verbatim>\<open>timer.elapsedMilliF()\<close>
    returns in the budget test that follows the \<open>n\<close>-th delivery of a drain.
\<close>

subsection \<open>Data\<close>

type_synonym EventID = "32 word"
type_synonym EventCallbackID = "32 word"
type_synonym EventCallback = nat

datatype InputAction = MoveUp | MoveDown | MoveLeft | MoveRight | Fire
datatype InputActionState = Start | Stop

text \<open>
  An event has a type identifier (\<^verbatim>\<open>getID()\<close>) and data of its own. For an input event
  the data are the action and the state given to the constructor; \<open>None\<close> is the call
  \<^verbatim>\<open>InputEvent(InputAction::Fire)\<close>, which passes no state.
\<close>

datatype EventData = Plain nat | Input InputAction "InputActionState option"
datatype Event = Event (getID: EventID) (getData: EventData)

type_synonym StrongEventPtr = "Event option"
type_synonym EventQueue = "StrongEventPtr list"
type_synonym ListenerMap = "(EventCallbackID \<times> EventCallback) list"

datatype error = AssertionFailed | NullDereference | IteratorInvalidated

datatype Keyboard = Keyboard_Up | Keyboard_Down | Keyboard_Left | Keyboard_Right
  | Keyboard_Space | Keyboard_Other nat

datatype sfEvent = Closed | KeyPressed Keyboard | KeyReleased Keyboard | OtherEvent nat

text \<open>
  The state: the fields of the class (\<open>listeners\<close>, \<open>queues\<close>, \<open>activeQueue\<close>), whether
  the window it holds is open, the static array \<open>keyStates\<close> of
  \<^verbatim>\<open>dispatchKeyboardEvent\<close>, and three histories that only record what happened, in
  order: every event handed to \<^verbatim>\<open>queueEvent\<close>, every event handed to \<^verbatim>\<open>triggerEvent\<close>
  and every call of a listener. The code writes the first two to its log.
\<close>

record GameEventSystem =
  listeners :: "EventID \<rightharpoonup> ListenerMap"
  queues :: "nat \<Rightarrow> EventQueue"
  activeQueue :: nat
  windowOpen :: bool
  keyStates :: "nat \<Rightarrow> bool"
  queued :: "Event list"
  triggered :: "Event list"
  invoked :: "(EventCallbackID \<times> EventCallback \<times> Event) list"

text \<open>
  What a listener may call while it runs: the mutating operations of the event system. A
  listener that itself calls \<^verbatim>\<open>triggerEvent\<close> or \<^verbatim>\<open>update\<close> is outside the model.
\<close>

datatype Command =
    QueueEvent StrongEventPtr
  | AddListener EventID EventCallbackID EventCallback
  | RemoveListener EventID EventCallbackID
  | AbortEvent EventID
  | AbortAllEvents EventID

type_synonym Behaviour = "EventCallback \<Rightarrow> Event \<Rightarrow> Command list"

subsection \<open>Callback identifiers\<close>

text \<open>
  \<^verbatim>\<open>static EventCallbackID currentID = 0; return ++currentID;\<close>
  The counter is the state; the result is the identifier and the new counter.
\<close>

definition generateNextCallbackID :: "'a::len word \<Rightarrow> 'a word \<times> 'a word" where
  "generateNextCallbackID currentID = (currentID + 1, currentID + 1)"

text \<open>The identifier returned by the \<open>n\<close>-th call of a process (\<open>n \<ge> 1\<close>), and the counter after it.\<close>

fun nthCallbackID :: "nat \<Rightarrow> 'a::len word \<times> 'a word" where
  "nthCallbackID 0 = (0, 0)"
| "nthCallbackID (Suc n) = generateNextCallbackID (snd (nthCallbackID n))"

subsection \<open>The listener registry\<close>

definition addListener ::
  "EventID \<Rightarrow> EventCallbackID \<Rightarrow> EventCallback \<Rightarrow> GameEventSystem \<Rightarrow> bool \<times> GameEventSystem" where
  "addListener evtID callbackID fn s =
     (case listeners s evtID of
        Some bucket \<Rightarrow>
          (case map_of bucket callbackID of
             Some _ \<Rightarrow> (False, s)
           | None \<Rightarrow> (True, s))
      | None \<Rightarrow> (True, s\<lparr>listeners := (listeners s)(evtID \<mapsto> [(callbackID, fn)])\<rparr>))"

definition erase_key :: "EventCallbackID \<Rightarrow> ListenerMap \<Rightarrow> ListenerMap" where
  "erase_key callbackID bucket = filter (\<lambda>entry. fst entry \<noteq> callbackID) bucket"

definition removeListener ::
  "EventID \<Rightarrow> EventCallbackID \<Rightarrow> GameEventSystem \<Rightarrow> bool \<times> GameEventSystem" where
  "removeListener evtID callbackID s =
     (case listeners s evtID of
        Some bucket \<Rightarrow>
          (case map_of bucket callbackID of
             Some _ \<Rightarrow> (False, s\<lparr>listeners := (listeners s)(evtID \<mapsto> erase_key callbackID bucket)\<rparr>)
           | None \<Rightarrow> (False, s))
      | None \<Rightarrow> (False, s))"

subsection \<open>Queueing and aborting\<close>

definition queueEvent :: "StrongEventPtr \<Rightarrow> GameEventSystem \<Rightarrow> error + GameEventSystem" where
  "queueEvent evt s =
     (case evt of
        None \<Rightarrow> Inl AssertionFailed
      | Some e \<Rightarrow>
          Inr (s\<lparr>queues := (queues s)(activeQueue s := queues s (activeQueue s) @ [evt]),
                 queued := queued s @ [e]\<rparr>))"

text \<open>The predicate of both abort operations: \<^verbatim>\<open>evt->getID() == id\<close>.\<close>

definition hasID :: "EventID \<Rightarrow> StrongEventPtr \<Rightarrow> error + bool" where
  "hasID eid evt = (case evt of None \<Rightarrow> Inl NullDereference | Some e \<Rightarrow> Inr (getID e = eid))"

text \<open>
  \<^verbatim>\<open>std::find_if\<close>: the position of the first element that satisfies the predicate, the
  length of the list (\<^verbatim>\<open>end()\<close>) when there is none.
\<close>

fun find_if :: "('a \<Rightarrow> error + bool) \<Rightarrow> 'a list \<Rightarrow> error + nat" where
  "find_if p [] = Inr 0"
| "find_if p (x # xs) =
     (case p x of
        Inl e \<Rightarrow> Inl e
      | Inr True \<Rightarrow> Inr 0
      | Inr False \<Rightarrow> (case find_if p xs of Inl e \<Rightarrow> Inl e | Inr i \<Rightarrow> Inr (Suc i)))"

definition erase_at :: "nat \<Rightarrow> 'a list \<Rightarrow> 'a list" where
  "erase_at itr q = take itr q @ drop (Suc itr) q"

definition abortEvent :: "EventID \<Rightarrow> GameEventSystem \<Rightarrow> error + (bool \<times> GameEventSystem)" where
  "abortEvent eid s =
     (let q = queues s (activeQueue s) in
      case find_if (hasID eid) q of
        Inl e \<Rightarrow> Inl e
      | Inr itr \<Rightarrow>
          if itr \<noteq> length q
          then Inr (True, s\<lparr>queues := (queues s)(activeQueue s := erase_at itr q)\<rparr>)
          else Inr (False, s))"

text \<open>
  \<^verbatim>\<open>std::remove_if\<close>, as the standard libraries write it: find the first element to
  remove; from there on move every element to keep down to \<open>result\<close>. The function
  returns the new logical end and never changes the length of the container. Moving a
  shared pointer leaves null behind.
\<close>

function remove_if_loop ::
  "(StrongEventPtr \<Rightarrow> error + bool) \<Rightarrow> nat \<Rightarrow> nat \<Rightarrow> EventQueue \<Rightarrow> error + (nat \<times> EventQueue)" where
  "remove_if_loop p result first q =
     (if first < length q
      then (case p (q ! first) of
              Inl e \<Rightarrow> Inl e
            | Inr True \<Rightarrow> remove_if_loop p result (Suc first) q
            | Inr False \<Rightarrow>
                remove_if_loop p (Suc result) (Suc first) (q[result := q ! first, first := None]))
      else Inr (result, q))"
  by pat_completeness auto
termination
  by (relation "measure (\<lambda>(p, result, first, q). length q - first)") auto

definition remove_if ::
  "(StrongEventPtr \<Rightarrow> error + bool) \<Rightarrow> EventQueue \<Rightarrow> error + (nat \<times> EventQueue)" where
  "remove_if p q =
     (case find_if p q of
        Inl e \<Rightarrow> Inl e
      | Inr first \<Rightarrow>
          if first = length q then Inr (first, q)
          else remove_if_loop p first (Suc first) q)"

text \<open>
  \<^verbatim>\<open>uint32_t count = size(); std::remove_if(...); count -= size();\<close>
  The iterator that \<^verbatim>\<open>remove_if\<close> returns is dropped.
\<close>

definition abortAllEvents :: "EventID \<Rightarrow> GameEventSystem \<Rightarrow> error + (32 word \<times> GameEventSystem)" where
  "abortAllEvents eid s =
     (let count = (of_nat (length (queues s (activeQueue s))) :: 32 word) in
      case remove_if (hasID eid) (queues s (activeQueue s)) of
        Inl e \<Rightarrow> Inl e
      | Inr (new_end, q') \<Rightarrow>
          (let s' = s\<lparr>queues := (queues s)(activeQueue s := q')\<rparr>
           in Inr (count - of_nat (length (queues s' (activeQueue s'))), s')))"

subsection \<open>Delivery\<close>

text \<open>One call a listener makes back into the event system; results are dropped.\<close>

fun exec :: "Command \<Rightarrow> GameEventSystem \<Rightarrow> error + GameEventSystem" where
  "exec (QueueEvent evt) s = queueEvent evt s"
| "exec (AddListener evtID callbackID fn) s = Inr (snd (addListener evtID callbackID fn s))"
| "exec (RemoveListener evtID callbackID) s = Inr (snd (removeListener evtID callbackID s))"
| "exec (AbortEvent eid) s = (case abortEvent eid s of Inl e \<Rightarrow> Inl e | Inr r \<Rightarrow> Inr (snd r))"
| "exec (AbortAllEvents eid) s = (case abortAllEvents eid s of Inl e \<Rightarrow> Inl e | Inr r \<Rightarrow> Inr (snd r))"

fun run :: "Command list \<Rightarrow> GameEventSystem \<Rightarrow> error + GameEventSystem" where
  "run [] s = Inr s"
| "run (c # cs) s = (case exec c s of Inl e \<Rightarrow> Inl e | Inr s' \<Rightarrow> run cs s')"

text \<open>\<^verbatim>\<open>listener.second(evt)\<close>: the call is recorded, then the listener does what it does.\<close>

definition call ::
  "Behaviour \<Rightarrow> EventCallbackID \<Rightarrow> EventCallback \<Rightarrow> Event \<Rightarrow> GameEventSystem \<Rightarrow> error + GameEventSystem" where
  "call beh callbackID fn evt s = run (beh fn evt) (s\<lparr>invoked := invoked s @ [(callbackID, fn, evt)]\<rparr>)"

text \<open>
  \<^verbatim>\<open>for (auto listener : itr->second) listener.second(evt);\<close>
  The loop walks the map itself, not a copy, while the listeners may change it. No call
  adds an entry to a map that exists or changes the callback of an entry (see
  \<open>addListener\<close>), so the walk visits the entries present at its start, in order, except
  those erased before it reaches them. A listener that erases its own entry invalidates
  the iterator that the loop then increments.
\<close>

definition liveKeys :: "EventID \<Rightarrow> GameEventSystem \<Rightarrow> EventCallbackID list" where
  "liveKeys evtID s = (case listeners s evtID of None \<Rightarrow> [] | Some bucket \<Rightarrow> map fst bucket)"

fun invokeAll ::
  "Behaviour \<Rightarrow> Event \<Rightarrow> ListenerMap \<Rightarrow> GameEventSystem \<Rightarrow> error + GameEventSystem" where
  "invokeAll beh evt [] s = Inr s"
| "invokeAll beh evt (listener # rest) s =
     (if fst listener \<in> set (liveKeys (getID evt) s)
      then (case call beh (fst listener) (snd listener) evt s of
              Inl e \<Rightarrow> Inl e
            | Inr s' \<Rightarrow>
                if fst listener \<in> set (liveKeys (getID evt) s')
                then invokeAll beh evt rest s'
                else Inl IteratorInvalidated)
      else invokeAll beh evt rest s)"

definition triggerEvent ::
  "Behaviour \<Rightarrow> StrongEventPtr \<Rightarrow> GameEventSystem \<Rightarrow> error + GameEventSystem" where
  "triggerEvent beh evt s =
     (case evt of
        None \<Rightarrow> Inl AssertionFailed
      | Some e \<Rightarrow>
         (let s1 = s\<lparr>triggered := triggered s @ [e]\<rparr> in
          case listeners s1 (getID e) of
            None \<Rightarrow> Inr s1
          | Some bucket \<Rightarrow> invokeAll beh e bucket s1))"

subsection \<open>The drain\<close>

text \<open>
  The loop of \<^verbatim>\<open>processQueue\<close>. \<open>qi\<close> is the index of the queue that the reference \<^verbatim>\<open>q\<close>
  names. The budget is tested after each delivery; when it is exceeded the rest of \<^verbatim>\<open>q\<close>
  goes through \<^verbatim>\<open>std::front_inserter\<close>, which pushes each element in turn at the front of
  the other queue, and \<^verbatim>\<open>q\<close> is cleared, which ends the loop at its next test.
\<close>

definition front_insert_all :: "'a list \<Rightarrow> 'a list \<Rightarrow> 'a list" where
  "front_insert_all src dst = foldl (\<lambda>acc x. x # acc) dst src"

partial_function (option) processQueue_loop ::
  "Behaviour \<Rightarrow> (nat \<Rightarrow> real) \<Rightarrow> real \<Rightarrow> nat \<Rightarrow> nat \<Rightarrow> GameEventSystem \<Rightarrow> (error + GameEventSystem) option" where
  "processQueue_loop beh timer maxMs qi count s =
     (case queues s qi of
        [] \<Rightarrow> Some (Inr s)
      | evt # rest \<Rightarrow>
         (case triggerEvent beh evt (s\<lparr>queues := (queues s)(qi := rest)\<rparr>) of
            Inl e \<Rightarrow> Some (Inl e)
          | Inr s2 \<Rightarrow>
             if timer (count + 1) > maxMs
             then (let s3 = s2\<lparr>queues := (queues s2)(activeQueue s2 :=
                               front_insert_all (queues s2 qi) (queues s2 (activeQueue s2)))\<rparr>;
                       s4 = s3\<lparr>queues := (queues s3)(qi := [])\<rparr>
                   in processQueue_loop beh timer maxMs qi (count + 1) s4)
             else processQueue_loop beh timer maxMs qi (count + 1) s2))"

declare processQueue_loop.simps [code]

definition processQueue ::
  "Behaviour \<Rightarrow> (nat \<Rightarrow> real) \<Rightarrow> real \<Rightarrow> GameEventSystem \<Rightarrow> (error + GameEventSystem) option" where
  "processQueue beh timer maxMs s =
     (let qi = activeQueue s;
          s1 = s\<lparr>activeQueue := (activeQueue s + 1) AND 1\<rparr>
      in processQueue_loop beh timer maxMs qi 0 s1)"

subsection \<open>Keyboard and window\<close>

definition UP :: nat where "UP = 0"
definition DOWN :: nat where "DOWN = 1"
definition LEFT :: nat where "LEFT = 2"
definition RIGHT :: nat where "RIGHT = 3"
definition FIRE :: nat where "FIRE = 4"

text \<open>
  The constructor of \<^verbatim>\<open>InputEvent\<close> is declared in a header that is not among the sources:
  the type identifier it gives an input event is the parameter \<open>inputID\<close>.
\<close>

definition InputEvent ::
  "(InputAction \<Rightarrow> InputActionState option \<Rightarrow> EventID) \<Rightarrow> InputAction \<Rightarrow> InputActionState option
     \<Rightarrow> StrongEventPtr" where
  "InputEvent inputID action st = Some (Event (inputID action st) (Input action st))"

text \<open>The four movement keys share one shape: \<open>k\<close> is the index of the key's flag.\<close>

definition moveKey ::
  "(InputAction \<Rightarrow> InputActionState option \<Rightarrow> EventID) \<Rightarrow> nat \<Rightarrow> InputAction \<Rightarrow> bool
     \<Rightarrow> GameEventSystem \<Rightarrow> error + GameEventSystem" where
  "moveKey inputID k action pressed s =
     (if pressed \<and> \<not> keyStates s k
      then queueEvent (InputEvent inputID action (Some Start)) (s\<lparr>keyStates := (keyStates s)(k := True)\<rparr>)
      else if \<not> pressed \<and> keyStates s k
      then queueEvent (InputEvent inputID action (Some Stop)) (s\<lparr>keyStates := (keyStates s)(k := False)\<rparr>)
      else Inr s)"

definition fireKey ::
  "(InputAction \<Rightarrow> InputActionState option \<Rightarrow> EventID) \<Rightarrow> bool
     \<Rightarrow> GameEventSystem \<Rightarrow> error + GameEventSystem" where
  "fireKey inputID pressed s =
     (if pressed \<and> \<not> keyStates s FIRE
      then queueEvent (InputEvent inputID Fire None) (s\<lparr>keyStates := (keyStates s)(FIRE := True)\<rparr>)
      else if \<not> pressed \<and> keyStates s FIRE
      then Inr (s\<lparr>keyStates := (keyStates s)(FIRE := False)\<rparr>)
      else Inr s)"

fun switchKey ::
  "(InputAction \<Rightarrow> InputActionState option \<Rightarrow> EventID) \<Rightarrow> Keyboard \<Rightarrow> bool
     \<Rightarrow> GameEventSystem \<Rightarrow> error + GameEventSystem" where
  "switchKey inputID Keyboard_Up pressed s = moveKey inputID UP MoveUp pressed s"
| "switchKey inputID Keyboard_Down pressed s = moveKey inputID DOWN MoveDown pressed s"
| "switchKey inputID Keyboard_Left pressed s = moveKey inputID LEFT MoveLeft pressed s"
| "switchKey inputID Keyboard_Right pressed s = moveKey inputID RIGHT MoveRight pressed s"
| "switchKey inputID Keyboard_Space pressed s = fireKey inputID pressed s"
| "switchKey inputID (Keyboard_Other n) pressed s = Inr s"

fun dispatchKeyboardEvent ::
  "(InputAction \<Rightarrow> InputActionState option \<Rightarrow> EventID) \<Rightarrow> sfEvent
     \<Rightarrow> GameEventSystem \<Rightarrow> error + GameEventSystem" where
  "dispatchKeyboardEvent inputID (KeyPressed code) s = switchKey inputID code True s"
| "dispatchKeyboardEvent inputID (KeyReleased code) s = switchKey inputID code False s"
| "dispatchKeyboardEvent inputID evt s = Inl AssertionFailed"



text \<open>
  The state the constructor leaves: no listener, two empty queues, the first one active.
  The window is open, no key is down and nothing has happened yet.
\<close>

definition initialSystem :: GameEventSystem where
  "initialSystem =
     \<lparr>listeners = Map.empty, queues = (\<lambda>_. []), activeQueue = 0, windowOpen = True,
      keyStates = (\<lambda>_. False), queued = [], triggered = [], invoked = []\<rparr>"

section \<open>Properties\<close>

subsection \<open>Identifiers and the registry\<close>

lemma nthCallbackID_of_nat: "nthCallbackID n = (of_nat n, of_nat n)"
  by (induction n) (simp_all add: generateNextCallbackID_def)

lemma removeListener_never_true: "fst (removeListener evtID callbackID s) = False"
  by (simp add: removeListener_def split: option.splits)

lemma addListener_known_type_unchanged:
  "listeners s evtID = Some bucket \<Longrightarrow> snd (addListener evtID callbackID fn s) = s"
  by (simp add: addListener_def split: option.splits)


subsection \<open>Removing from a queue\<close>

declare remove_if_loop.simps [simp del]

lemma find_if_le: "find_if p q = Inr i \<Longrightarrow> i \<le> length q"
  by (induction q arbitrary: i) (auto split: sum.splits bool.splits)

lemma remove_if_loop_length:
  "remove_if_loop p result first q = Inr (n, q') \<Longrightarrow> length q' = length q"
proof (induction p result first q rule: remove_if_loop.induct)
  case (1 p result first q)
  show ?case
  proof (cases "first < length q")
    case False
    with "1.prems" show ?thesis by (simp add: remove_if_loop.simps [of p result first q])
  next
    case True
    note lt = this
    show ?thesis
    proof (cases "p (q ! first)")
      case (Inl e)
      with lt "1.prems" show ?thesis by (simp add: remove_if_loop.simps [of p result first q])
    next
      case (Inr b)
      show ?thesis
      proof (cases b)
        case True
        with Inr lt "1.prems" "1.IH"(1) show ?thesis
          by (simp add: remove_if_loop.simps [of p result first q])
      next
        case False
        with Inr lt "1.prems" "1.IH"(2) [of b] show ?thesis
          by (simp add: remove_if_loop.simps [of p result first q])
      qed
    qed
  qed
qed

lemma remove_if_length: "remove_if p q = Inr (n, q') \<Longrightarrow> length q' = length q"
  by (auto simp: remove_if_def split: sum.splits if_splits dest: remove_if_loop_length)



lemma abortAllEvents_zero:
  "abortAllEvents eid s = Inr (n, s') \<Longrightarrow> n = 0 \<and> length (queues s' (activeQueue s')) = length (queues s (activeQueue s))"
  by (auto simp: abortAllEvents_def Let_def split: sum.splits prod.splits dest: remove_if_length)

subsection \<open>What a call back into the event system leaves alone\<close>

lemma queueEvent_Inr:
  "queueEvent evt s = Inr s' \<Longrightarrow>
     \<exists>e. evt = Some e \<and>
       s' = s\<lparr>queues := (queues s)(activeQueue s := queues s (activeQueue s) @ [Some e]),
              queued := queued s @ [e]\<rparr>"
  by (auto simp: queueEvent_def split: option.splits)

lemma addListener_frame:
  "activeQueue (snd (addListener i k fn s)) = activeQueue s"
  "queues (snd (addListener i k fn s)) = queues s"
  "queued (snd (addListener i k fn s)) = queued s"
  "triggered (snd (addListener i k fn s)) = triggered s"
  "invoked (snd (addListener i k fn s)) = invoked s"
  by (simp_all add: addListener_def split: option.splits)

lemma removeListener_frame:
  "activeQueue (snd (removeListener i k s)) = activeQueue s"
  "queues (snd (removeListener i k s)) = queues s"
  "queued (snd (removeListener i k s)) = queued s"
  "triggered (snd (removeListener i k s)) = triggered s"
  "invoked (snd (removeListener i k s)) = invoked s"
  by (simp_all add: removeListener_def split: option.splits)

lemma abortEvent_frame:
  assumes "abortEvent eid s = Inr (b, s')"
  shows "activeQueue s' = activeQueue s" "queued s' = queued s" "triggered s' = triggered s"
    "invoked s' = invoked s" "i \<noteq> activeQueue s \<Longrightarrow> queues s' i = queues s i"
  using assms by (auto simp: abortEvent_def Let_def split: sum.splits if_splits)

lemma abortAllEvents_frame:
  assumes "abortAllEvents eid s = Inr (n, s')"
  shows "activeQueue s' = activeQueue s" "queued s' = queued s" "triggered s' = triggered s"
    "invoked s' = invoked s" "i \<noteq> activeQueue s \<Longrightarrow> queues s' i = queues s i"
  using assms by (auto simp: abortAllEvents_def Let_def split: sum.splits prod.splits)

lemma exec_frame:
  assumes "exec c s = Inr s'"
  shows "activeQueue s' = activeQueue s" "triggered s' = triggered s" "invoked s' = invoked s"
    "i \<noteq> activeQueue s \<Longrightarrow> queues s' i = queues s i"
proof -
  have "activeQueue s' = activeQueue s \<and> triggered s' = triggered s \<and> invoked s' = invoked s
      \<and> (i \<noteq> activeQueue s \<longrightarrow> queues s' i = queues s i)"
  proof (cases c)
    case (QueueEvent evt)
    with assms show ?thesis by (auto dest!: queueEvent_Inr)
  next
    case (AddListener i k fn)
    with assms show ?thesis by (auto simp: addListener_frame)
  next
    case (RemoveListener i k)
    with assms show ?thesis by (auto simp: removeListener_frame)
  next
    case (AbortEvent eid)
    with assms show ?thesis
      by (cases "abortEvent eid s") (auto simp: abortEvent_frame split: sum.splits)
  next
    case (AbortAllEvents eid)
    with assms show ?thesis
      by (cases "abortAllEvents eid s") (auto simp: abortAllEvents_frame split: sum.splits)
  qed
  then show "activeQueue s' = activeQueue s" "triggered s' = triggered s" "invoked s' = invoked s"
    "i \<noteq> activeQueue s \<Longrightarrow> queues s' i = queues s i"
    by simp_all
qed

lemma run_frame:
  assumes "run cs s = Inr s'"
  shows "activeQueue s' = activeQueue s \<and> triggered s' = triggered s \<and> invoked s' = invoked s
      \<and> (\<forall>i. i \<noteq> activeQueue s \<longrightarrow> queues s' i = queues s i)"
  using assms
proof (induction cs arbitrary: s)
  case Nil
  then show ?case by simp
next
  case (Cons c cs)
  from Cons.prems obtain s1 where c: "exec c s = Inr s1" and r: "run cs s1 = Inr s'"
    by (auto split: sum.splits)
  from Cons.IH [OF r] exec_frame [OF c] show ?case by simp
qed

lemma call_frame:
  assumes "call beh k fn evt s = Inr s'"
  shows "activeQueue s' = activeQueue s \<and> triggered s' = triggered s
      \<and> invoked s' = invoked s @ [(k, fn, evt)]
      \<and> (\<forall>i. i \<noteq> activeQueue s \<longrightarrow> queues s' i = queues s i)"
  using run_frame [OF assms [unfolded call_def]] by simp

lemma invokeAll_frame:
  assumes "invokeAll beh evt bucket s = Inr s'"
  shows "activeQueue s' = activeQueue s \<and> triggered s' = triggered s
      \<and> (\<forall>i. i \<noteq> activeQueue s \<longrightarrow> queues s' i = queues s i)"
  using assms
proof (induction bucket arbitrary: s)
  case Nil
  then show ?case by simp
next
  case (Cons l rest)
  show ?case
  proof (cases "fst l \<in> set (liveKeys (getID evt) s)")
    case False
    with Cons.prems have "invokeAll beh evt rest s = Inr s'" by simp
    from Cons.IH [OF this] show ?thesis .
  next
    case True
    with Cons.prems obtain s1 where c: "call beh (fst l) (snd l) evt s = Inr s1"
      and r: "invokeAll beh evt rest s1 = Inr s'"
      by (auto split: sum.splits if_splits)
    from Cons.IH [OF r] call_frame [OF c] show ?thesis by simp
  qed
qed

lemma triggerEvent_frame:
  assumes "triggerEvent beh evt s = Inr s'"
  shows "\<exists>e. evt = Some e \<and> activeQueue s' = activeQueue s \<and> triggered s' = triggered s @ [e]
      \<and> (\<forall>i. i \<noteq> activeQueue s \<longrightarrow> queues s' i = queues s i)"
proof (cases evt)
  case None
  with assms show ?thesis by (simp add: triggerEvent_def)
next
  case (Some e)
  show ?thesis
  proof (cases "listeners s (getID e)")
    case None
    with Some assms show ?thesis by (auto simp: triggerEvent_def)
  next
    case (Some bucket)
    with \<open>evt = Some e\<close> assms
    have "invokeAll beh e bucket (s\<lparr>triggered := triggered s @ [e]\<rparr>) = Inr s'"
      by (simp add: triggerEvent_def)
    from invokeAll_frame [OF this] \<open>evt = Some e\<close> show ?thesis by simp
  qed
qed

text \<open>
  A call back into the event system never adds an entry to a map that exists: this is what
  lets \<open>invokeAll\<close> walk the entries that the map had when the walk began.
\<close>

lemma exec_listeners_shrink:
  assumes "exec c s = Inr s'" and "listeners s i = Some b"
  shows "\<exists>b'. listeners s' i = Some b' \<and> set b' \<subseteq> set b"
proof (cases c)
  case (QueueEvent evt)
  with assms show ?thesis by (auto dest!: queueEvent_Inr)
next
  case (AddListener j k fn)
  with assms show ?thesis by (auto simp: addListener_def split: option.splits)
next
  case (RemoveListener j k)
  with assms show ?thesis by (auto simp: removeListener_def erase_key_def split: option.splits)
next
  case (AbortEvent eid)
  with assms show ?thesis
    by (auto simp: abortEvent_def Let_def split: sum.splits if_splits)
next
  case (AbortAllEvents eid)
  with assms show ?thesis
    by (auto simp: abortAllEvents_def Let_def split: sum.splits prod.splits)
qed

lemma run_listeners_shrink:
  assumes "run cs s = Inr s'" and "listeners s i = Some b"
  shows "\<exists>b'. listeners s' i = Some b' \<and> set b' \<subseteq> set b"
  using assms
proof (induction cs arbitrary: s b)
  case Nil
  then show ?case by simp
next
  case (Cons c cs)
  from Cons.prems(1) obtain s1 where c: "exec c s = Inr s1" and r: "run cs s1 = Inr s'"
    by (auto split: sum.splits)
  from exec_listeners_shrink [OF c Cons.prems(2)] obtain b1
    where b1: "listeners s1 i = Some b1" "set b1 \<subseteq> set b" by blast
  from Cons.IH [OF r b1(1)] b1(2) show ?case by blast
qed

subsection \<open>Listeners that abort nothing only append to the queue that receives\<close>

lemma exec_appends:
  assumes "exec c s = Inr s'" and "\<forall>eid. c \<noteq> AbortEvent eid \<and> c \<noteq> AbortAllEvents eid"
  shows "\<exists>qs. queued s' = queued s @ qs
      \<and> queues s' (activeQueue s) = queues s (activeQueue s) @ map Some qs"
proof (cases c)
  case (QueueEvent evt)
  with assms(1) obtain e where "evt = Some e"
    and "s' = s\<lparr>queues := (queues s)(activeQueue s := queues s (activeQueue s) @ [Some e]),
              queued := queued s @ [e]\<rparr>"
    by (auto dest!: queueEvent_Inr)
  then have "queued s' = queued s @ [e]
      \<and> queues s' (activeQueue s) = queues s (activeQueue s) @ map Some [e]"
    by simp
  then show ?thesis by blast
next
  case (AddListener i k fn)
  with assms(1) have "queued s' = queued s @ []
      \<and> queues s' (activeQueue s) = queues s (activeQueue s) @ map Some []"
    by (auto simp: addListener_frame)
  then show ?thesis by blast
next
  case (RemoveListener i k)
  with assms(1) have "queued s' = queued s @ []
      \<and> queues s' (activeQueue s) = queues s (activeQueue s) @ map Some []"
    by (auto simp: removeListener_frame)
  then show ?thesis by blast
next
  case (AbortEvent eid)
  with assms(2) show ?thesis by simp
next
  case (AbortAllEvents eid)
  with assms(2) show ?thesis by simp
qed

lemma run_appends:
  assumes "run cs s = Inr s'"
    and "\<forall>eid. AbortEvent eid \<notin> set cs \<and> AbortAllEvents eid \<notin> set cs"
  shows "\<exists>qs. queued s' = queued s @ qs
      \<and> queues s' (activeQueue s) = queues s (activeQueue s) @ map Some qs"
  using assms
proof (induction cs arbitrary: s)
  case Nil
  then have "queued s' = queued s @ [] \<and> queues s' (activeQueue s) = queues s (activeQueue s) @ map Some []"
    by simp
  then show ?case by blast
next
  case (Cons c cs)
  from Cons.prems(1) obtain s1 where c: "exec c s = Inr s1" and r: "run cs s1 = Inr s'"
    by (auto split: sum.splits)
  from Cons.prems(2) have nc: "\<forall>eid. c \<noteq> AbortEvent eid \<and> c \<noteq> AbortAllEvents eid"
    and ncs: "\<forall>eid. AbortEvent eid \<notin> set cs \<and> AbortAllEvents eid \<notin> set cs"
    by auto
  from exec_appends [OF c nc] obtain qs1 where 1: "queued s1 = queued s @ qs1"
    "queues s1 (activeQueue s) = queues s (activeQueue s) @ map Some qs1" by blast
  from Cons.IH [OF r ncs] obtain qs2 where 2: "queued s' = queued s1 @ qs2"
    "queues s' (activeQueue s1) = queues s1 (activeQueue s1) @ map Some qs2" by blast
  from exec_frame(1) [OF c] have a: "activeQueue s1 = activeQueue s" .
  from 1 2 a have "queued s' = queued s @ (qs1 @ qs2)
      \<and> queues s' (activeQueue s) = queues s (activeQueue s) @ map Some (qs1 @ qs2)"
    by simp
  then show ?case by blast
qed

lemma invokeAll_appends:
  assumes "invokeAll beh evt bucket s = Inr s'"
    and "\<forall>fn e eid. AbortEvent eid \<notin> set (beh fn e) \<and> AbortAllEvents eid \<notin> set (beh fn e)"
  shows "\<exists>qs. queued s' = queued s @ qs
      \<and> queues s' (activeQueue s) = queues s (activeQueue s) @ map Some qs"
  using assms(1)
proof (induction bucket arbitrary: s)
  case Nil
  then have "queued s' = queued s @ [] \<and> queues s' (activeQueue s) = queues s (activeQueue s) @ map Some []"
    by simp
  then show ?case by blast
next
  case (Cons l rest)
  show ?case
  proof (cases "fst l \<in> set (liveKeys (getID evt) s)")
    case False
    with Cons.prems have "invokeAll beh evt rest s = Inr s'" by simp
    from Cons.IH [OF this] show ?thesis .
  next
    case True
    with Cons.prems obtain s1 where c: "call beh (fst l) (snd l) evt s = Inr s1"
      and r: "invokeAll beh evt rest s1 = Inr s'"
      by (auto split: sum.splits if_splits)
    from assms(2) have "\<forall>eid. AbortEvent eid \<notin> set (beh (snd l) evt)
        \<and> AbortAllEvents eid \<notin> set (beh (snd l) evt)" by blast
    from run_appends [OF c [unfolded call_def] this]
    obtain qs1 where 1: "queued s1 = queued s @ qs1"
      "queues s1 (activeQueue s) = queues s (activeQueue s) @ map Some qs1" by auto
    from Cons.IH [OF r] obtain qs2 where 2: "queued s' = queued s1 @ qs2"
      "queues s' (activeQueue s1) = queues s1 (activeQueue s1) @ map Some qs2" by blast
    from call_frame [OF c] have a: "activeQueue s1 = activeQueue s" by simp
    from 1 2 a have "queued s' = queued s @ (qs1 @ qs2)
        \<and> queues s' (activeQueue s) = queues s (activeQueue s) @ map Some (qs1 @ qs2)"
      by simp
    then show ?thesis by blast
  qed
qed

lemma triggerEvent_appends:
  assumes "triggerEvent beh evt s = Inr s'"
    and "\<forall>fn e eid. AbortEvent eid \<notin> set (beh fn e) \<and> AbortAllEvents eid \<notin> set (beh fn e)"
  shows "\<exists>qs. queued s' = queued s @ qs
      \<and> queues s' (activeQueue s) = queues s (activeQueue s) @ map Some qs"
proof (cases evt)
  case None
  with assms(1) show ?thesis by (simp add: triggerEvent_def)
next
  case (Some e)
  show ?thesis
  proof (cases "listeners s (getID e)")
    case None
    with Some assms(1) have "queued s' = queued s @ []
        \<and> queues s' (activeQueue s) = queues s (activeQueue s) @ map Some []"
      by (auto simp: triggerEvent_def)
    then show ?thesis by blast
  next
    case (Some bucket)
    with \<open>evt = Some e\<close> assms(1)
    have "invokeAll beh e bucket (s\<lparr>triggered := triggered s @ [e]\<rparr>) = Inr s'"
      by (simp add: triggerEvent_def)
    from invokeAll_appends [OF this assms(2)] show ?thesis by simp
  qed
qed

lemma front_insert_all_rev: "front_insert_all src dst = rev src @ dst"
  unfolding front_insert_all_def by (induction src arbitrary: dst) simp_all

subsection \<open>The loop of the drain\<close>

lemma processQueue_loop_Nil:
  "queues s qi = [] \<Longrightarrow> processQueue_loop beh timer maxMs qi count s = Some (Inr s)"
  by (subst processQueue_loop.simps) simp

lemma processQueue_loop_Cons:
  "queues s qi = evt # rest \<Longrightarrow>
   processQueue_loop beh timer maxMs qi count s =
     (case triggerEvent beh evt (s\<lparr>queues := (queues s)(qi := rest)\<rparr>) of
        Inl e \<Rightarrow> Some (Inl e)
      | Inr s2 \<Rightarrow>
         if timer (count + 1) > maxMs
         then processQueue_loop beh timer maxMs qi (count + 1)
               (s2\<lparr>queues := (queues s2)(activeQueue s2 :=
                       front_insert_all (queues s2 qi) (queues s2 (activeQueue s2)), qi := [])\<rparr>)
         else processQueue_loop beh timer maxMs qi (count + 1) s2)"
  apply (subst processQueue_loop.simps)
  apply (unfold Let_def)
  apply (simp cong: sum.case_cong if_cong)
  done

lemma processQueue_loop_main:
  assumes "queues s qi = q" and "qi \<noteq> activeQueue s"
  shows "\<exists>r. processQueue_loop beh timer maxMs qi count s = Some r \<and>
     (\<forall>s'. r = Inr s' \<longrightarrow>
        activeQueue s' = activeQueue s \<and> queues s' qi = [] \<and>
        (\<exists>ds. triggered s' = triggered s @ ds \<and> map Some ds = take (length ds) q
           \<and> (q \<noteq> [] \<longrightarrow> ds \<noteq> [])
           \<and> (\<forall>i. count < i \<and> i < count + length ds \<longrightarrow> timer i \<le> maxMs)
           \<and> (length ds < length q \<longrightarrow> maxMs < timer (count + length ds))
           \<and> ((\<forall>fn e eid. AbortEvent eid \<notin> set (beh fn e) \<and> AbortAllEvents eid \<notin> set (beh fn e)) \<longrightarrow>
                (\<exists>qs. queued s' = queued s @ qs \<and>
                   queues s' (activeQueue s) =
                     rev (drop (length ds) q) @ queues s (activeQueue s) @ map Some qs))))"
proof -
  define noabort where
    "noabort \<longleftrightarrow> (\<forall>fn e eid. AbortEvent eid \<notin> set (beh fn e) \<and> AbortAllEvents eid \<notin> set (beh fn e))"
  define Post where "Post = (\<lambda>(s :: GameEventSystem) (q :: EventQueue) (count :: nat) (s' :: GameEventSystem).
        activeQueue s' = activeQueue s \<and> queues s' qi = [] \<and>
        (\<exists>ds. triggered s' = triggered s @ ds \<and> map Some ds = take (length ds) q
           \<and> (q \<noteq> [] \<longrightarrow> ds \<noteq> [])
           \<and> (\<forall>i. count < i \<and> i < count + length ds \<longrightarrow> timer i \<le> maxMs)
           \<and> (length ds < length q \<longrightarrow> maxMs < timer (count + length ds))
           \<and> (noabort \<longrightarrow>
                (\<exists>qs. queued s' = queued s @ qs \<and>
                   queues s' (activeQueue s) =
                     rev (drop (length ds) q) @ queues s (activeQueue s) @ map Some qs))))"
  have PostI: "Post s q count s'"
    if "activeQueue s' = activeQueue s" "queues s' qi = []"
      "triggered s' = triggered s @ ds" "map Some ds = take (length ds) q"
      "q \<noteq> [] \<longrightarrow> ds \<noteq> []"
      "\<forall>i. count < i \<and> i < count + length ds \<longrightarrow> timer i \<le> maxMs"
      "length ds < length q \<longrightarrow> maxMs < timer (count + length ds)"
      "noabort \<longrightarrow> queued s' = queued s @ qs \<and>
         queues s' (activeQueue s) = rev (drop (length ds) q) @ queues s (activeQueue s) @ map Some qs"
    for s q count s' ds qs
    unfolding Post_def using that by blast
  have PostE: "\<exists>ds qs. activeQueue s' = activeQueue s \<and> queues s' qi = [] \<and>
      triggered s' = triggered s @ ds \<and> map Some ds = take (length ds) q \<and>
      (q \<noteq> [] \<longrightarrow> ds \<noteq> []) \<and>
      (\<forall>i. count < i \<and> i < count + length ds \<longrightarrow> timer i \<le> maxMs) \<and>
      (length ds < length q \<longrightarrow> maxMs < timer (count + length ds)) \<and>
      (noabort \<longrightarrow> queued s' = queued s @ qs \<and>
         queues s' (activeQueue s) = rev (drop (length ds) q) @ queues s (activeQueue s) @ map Some qs)"
    if "Post s q count s'" for s q count s'
    using that unfolding Post_def by blast
  have main: "\<exists>r. processQueue_loop beh timer maxMs qi count s = Some r \<and>
      (\<forall>s'. r = Inr s' \<longrightarrow> Post s q count s')"
    if "queues s qi = q" and "qi \<noteq> activeQueue s" for s q count
    using that
  proof (induction q arbitrary: s count)
    case Nil
    have res: "processQueue_loop beh timer maxMs qi count s = Some (Inr s)"
      using Nil.prems(1) by (simp add: processQueue_loop_Nil)
    have "Post s [] count s"
      by (rule PostI [where ds = "[]" and qs = "[]"]) (simp_all add: Nil.prems(1))
    with res show ?case by simp
  next
    case (Cons evt rest)
    let ?s1 = "s\<lparr>queues := (queues s)(qi := rest)\<rparr>"
    note unfold = processQueue_loop_Cons [OF Cons.prems(1), of beh timer maxMs count]
    show ?case
    proof (cases "triggerEvent beh evt ?s1")
      case (Inl err)
      with unfold have "processQueue_loop beh timer maxMs qi count s = Some (Inl err)" by simp
      then show ?thesis by simp
    next
      case (Inr s2)
      from triggerEvent_frame [OF Inr] Cons.prems(2) obtain e where e: "evt = Some e"
        and a2: "activeQueue s2 = activeQueue s"
        and t2: "triggered s2 = triggered s @ [e]"
        and q2: "queues s2 qi = rest"
        by auto
      have "\<exists>qs. noabort \<longrightarrow> queued s2 = queued s @ qs
          \<and> queues s2 (activeQueue s) = queues s (activeQueue s) @ map Some qs"
        using triggerEvent_appends [OF Inr] Cons.prems(2) unfolding noabort_def by auto
      then obtain qs1 where ap2: "noabort \<longrightarrow> queued s2 = queued s @ qs1
          \<and> queues s2 (activeQueue s) = queues s (activeQueue s) @ map Some qs1" ..
      show ?thesis
      proof (cases "maxMs < timer (count + 1)")
        case True
        define s4 where "s4 = s2\<lparr>queues := (queues s2)(activeQueue s2 :=
                         front_insert_all (queues s2 qi) (queues s2 (activeQueue s2)), qi := [])\<rparr>"
        have "processQueue_loop beh timer maxMs qi (count + 1) s4 = Some (Inr s4)"
          by (rule processQueue_loop_Nil) (simp add: s4_def)
        with unfold Inr True
        have res: "processQueue_loop beh timer maxMs qi count s = Some (Inr s4)"
          by (simp add: s4_def)
        have q4: "queues s4 (activeQueue s) = rev rest @ queues s2 (activeQueue s)"
          using a2 q2 Cons.prems(2) by (simp add: s4_def front_insert_all_rev)
        have "Post s (evt # rest) count s4"
        proof (rule PostI [where ds = "[e]" and qs = qs1])
          show "activeQueue s4 = activeQueue s" using a2 by (simp add: s4_def)
          show "queues s4 qi = []" by (simp add: s4_def)
          show "triggered s4 = triggered s @ [e]" using t2 by (simp add: s4_def)
          show "map Some [e] = take (length [e]) (evt # rest)" using e by simp
          show "evt # rest \<noteq> [] \<longrightarrow> [e] \<noteq> []" by simp
          show "\<forall>i. count < i \<and> i < count + length [e] \<longrightarrow> timer i \<le> maxMs" by simp
          show "length [e] < length (evt # rest) \<longrightarrow> maxMs < timer (count + length [e])"
            using True by simp
          show "noabort \<longrightarrow> queued s4 = queued s @ qs1 \<and> queues s4 (activeQueue s) =
              rev (drop (length [e]) (evt # rest)) @ queues s (activeQueue s) @ map Some qs1"
            using ap2 q4 by (simp add: s4_def)
        qed
        with res show ?thesis by simp
      next
        case False
        from unfold Inr False
        have step: "processQueue_loop beh timer maxMs qi count s =
            processQueue_loop beh timer maxMs qi (count + 1) s2" by simp
        from Cons.prems(2) a2 have ne2: "qi \<noteq> activeQueue s2" by simp
        from Cons.IH [OF q2 ne2, of "count + 1"] obtain r where
          r: "processQueue_loop beh timer maxMs qi (count + 1) s2 = Some r"
          and ih: "\<And>s'. r = Inr s' \<Longrightarrow> Post s2 rest (count + 1) s'"
          by blast
        from step r have res: "processQueue_loop beh timer maxMs qi count s = Some r" by simp
        have "Post s (evt # rest) count s'" if rs: "r = Inr s'" for s'
        proof -
          from PostE [OF ih [OF rs]] obtain ds qs2 where a': "activeQueue s' = activeQueue s2"
            and q': "queues s' qi = []"
            and t': "triggered s' = triggered s2 @ ds"
            and pre: "map Some ds = take (length ds) rest"
            and bud: "\<forall>i. count + 1 < i \<and> i < count + 1 + length ds \<longrightarrow> timer i \<le> maxMs"
            and over: "length ds < length rest \<longrightarrow> maxMs < timer (count + 1 + length ds)"
            and car: "noabort \<longrightarrow> queued s' = queued s2 @ qs2 \<and>
                       queues s' (activeQueue s2) =
                         rev (drop (length ds) rest) @ queues s2 (activeQueue s2) @ map Some qs2"
            by blast
          show ?thesis
          proof (rule PostI [where ds = "e # ds" and qs = "qs1 @ qs2"])
            show "activeQueue s' = activeQueue s" using a' a2 by simp
            show "queues s' qi = []" by (rule q')
            show "triggered s' = triggered s @ e # ds" using t' t2 by simp
            show "map Some (e # ds) = take (length (e # ds)) (evt # rest)" using pre e by simp
            show "evt # rest \<noteq> [] \<longrightarrow> e # ds \<noteq> []" by simp
            show "\<forall>i. count < i \<and> i < count + length (e # ds) \<longrightarrow> timer i \<le> maxMs"
            proof (intro allI impI)
              fix i assume i: "count < i \<and> i < count + length (e # ds)"
              show "timer i \<le> maxMs"
              proof (cases "i = count + 1")
                case True
                with False show ?thesis by simp
              next
                case False
                with i bud show ?thesis by simp
              qed
            qed
            show "length (e # ds) < length (evt # rest) \<longrightarrow> maxMs < timer (count + length (e # ds))"
              using over by simp
            show "noabort \<longrightarrow> queued s' = queued s @ qs1 @ qs2 \<and> queues s' (activeQueue s) =
                rev (drop (length (e # ds)) (evt # rest)) @ queues s (activeQueue s) @ map Some (qs1 @ qs2)"
              using ap2 car a2 by simp
          qed
        qed
        with res show ?thesis by simp
      qed
    qed
  qed
  from main [OF assms, of count] obtain r where
    r: "processQueue_loop beh timer maxMs qi count s = Some r"
    and post: "\<And>s'. r = Inr s' \<Longrightarrow> Post s q count s'"
    by blast
  have "activeQueue s' = activeQueue s \<and> queues s' qi = [] \<and>
        (\<exists>ds. triggered s' = triggered s @ ds \<and> map Some ds = take (length ds) q
           \<and> (q \<noteq> [] \<longrightarrow> ds \<noteq> [])
           \<and> (\<forall>i. count < i \<and> i < count + length ds \<longrightarrow> timer i \<le> maxMs)
           \<and> (length ds < length q \<longrightarrow> maxMs < timer (count + length ds))
           \<and> ((\<forall>fn e eid. AbortEvent eid \<notin> set (beh fn e) \<and> AbortAllEvents eid \<notin> set (beh fn e)) \<longrightarrow>
                (\<exists>qs. queued s' = queued s @ qs \<and>
                   queues s' (activeQueue s) =
                     rev (drop (length ds) q) @ queues s (activeQueue s) @ map Some qs)))"
    if "r = Inr s'" for s'
    using post [OF that] unfolding Post_def noabort_def .
  with r show ?thesis by blast
qed

subsection \<open>The drain as a whole\<close>

lemma flip_neq: "(a + 1) AND (1 :: nat) \<noteq> a"
proof
  assume eq: "(a + 1) AND 1 = a"
  have "(a + 1) AND 1 = (a + 1) mod 2" by (simp add: and_one_eq)
  with eq have "a = (a + 1) mod 2" by simp
  then show False by presburger
qed

lemma processQueue_unfold:
  "processQueue beh timer maxMs s =
     processQueue_loop beh timer maxMs (activeQueue s) 0 (s\<lparr>activeQueue := (activeQueue s + 1) AND 1\<rparr>)"
  by (simp add: processQueue_def Let_def)



lemma processQueue_main:
  "\<exists>r. processQueue beh timer maxMs s = Some r \<and>
     (\<forall>s'. r = Inr s' \<longrightarrow>
        activeQueue s' = (activeQueue s + 1) AND 1 \<and> queues s' (activeQueue s) = [] \<and>
        (\<exists>ds. triggered s' = triggered s @ ds
           \<and> map Some ds = take (length ds) (queues s (activeQueue s))
           \<and> (queues s (activeQueue s) \<noteq> [] \<longrightarrow> ds \<noteq> [])
           \<and> (\<forall>i. 0 < i \<and> i < length ds \<longrightarrow> timer i \<le> maxMs)
           \<and> (length ds < length (queues s (activeQueue s)) \<longrightarrow> maxMs < timer (length ds))
           \<and> ((\<forall>fn e eid. AbortEvent eid \<notin> set (beh fn e) \<and> AbortAllEvents eid \<notin> set (beh fn e)) \<longrightarrow>
                (\<exists>qs. queued s' = queued s @ qs \<and>
                   queues s' ((activeQueue s + 1) AND 1) =
                     rev (drop (length ds) (queues s (activeQueue s)))
                       @ queues s ((activeQueue s + 1) AND 1) @ map Some qs))))"
proof -
  let ?s0 = "s\<lparr>activeQueue := (activeQueue s + 1) AND 1\<rparr>"
  have 1: "queues ?s0 (activeQueue s) = queues s (activeQueue s)" by simp
  have 2: "activeQueue s \<noteq> activeQueue ?s0"
    using flip_neq [of "activeQueue s"] by simp
  have sel: "activeQueue ?s0 = (activeQueue s + 1) AND 1" "triggered ?s0 = triggered s"
    "queued ?s0 = queued s" "queues ?s0 = queues s" "0 + n = n" for n :: nat
    by simp_all
  show ?thesis
    using processQueue_loop_main [OF 1 2, of beh timer maxMs 0]
    unfolding processQueue_unfold sel .
qed

subsection \<open>Listeners that do not call back\<close>

lemma liveKeys_invoked [simp]: "liveKeys i (s\<lparr>invoked := x\<rparr>) = liveKeys i s"
  by (simp add: liveKeys_def)

lemma liveKeys_triggered [simp]: "liveKeys i (s\<lparr>triggered := x\<rparr>) = liveKeys i s"
  by (simp add: liveKeys_def)

lemma invokeAll_silent:
  assumes "\<forall>l \<in> set b. beh (snd l) e = [] \<and> fst l \<in> set (liveKeys (getID e) s)"
  shows "invokeAll beh e b s = Inr (s\<lparr>invoked := invoked s @ map (\<lambda>l. (fst l, snd l, e)) b\<rparr>)"
  using assms
proof (induction b arbitrary: s)
  case Nil
  then show ?case by simp
next
  case (Cons l rest)
  let ?s1 = "s\<lparr>invoked := invoked s @ [(fst l, snd l, e)]\<rparr>"
  from Cons.prems have c: "call beh (fst l) (snd l) e s = Inr ?s1"
    by (simp add: call_def)
  from Cons.prems have "\<forall>l \<in> set rest. beh (snd l) e = [] \<and> fst l \<in> set (liveKeys (getID e) ?s1)"
    by simp
  from Cons.IH [OF this] c Cons.prems show ?case by simp
qed



lemma triggerEvent_silent:
  assumes "\<forall>l \<in> set (case listeners s (getID e) of None \<Rightarrow> [] | Some bucket \<Rightarrow> bucket).
             beh (snd l) e = []"
  shows "triggerEvent beh (Some e) s =
     Inr (s\<lparr>triggered := triggered s @ [e],
            invoked := invoked s @ map (\<lambda>l. (fst l, snd l, e))
              (case listeners s (getID e) of None \<Rightarrow> [] | Some bucket \<Rightarrow> bucket)\<rparr>)"
proof (cases "listeners s (getID e)")
  case None
  then show ?thesis by (simp add: triggerEvent_def)
next
  case (Some bucket)
  let ?s1 = "s\<lparr>triggered := triggered s @ [e]\<rparr>"
  from Some assms
  have "\<forall>l \<in> set bucket. beh (snd l) e = [] \<and> fst l \<in> set (liveKeys (getID e) ?s1)"
    by (simp add: liveKeys_def)
  then have "invokeAll beh e bucket ?s1 =
      Inr (?s1\<lparr>invoked := invoked ?s1 @ map (\<lambda>l. (fst l, snd l, e)) bucket\<rparr>)"
    by (rule invokeAll_silent)
  with Some show ?thesis
    by (simp add: triggerEvent_def)
qed




section \<open>The claims\<close>

subsection \<open>The listener registry\<close>

text \<open>
  C1. The claim: whenever the pair (event type, callback identifier) is not registered,
  \<open>addListener\<close> registers the callback and returns true, also when the event type has
  other listeners. The code returns true but stores the callback only when the event type
  has no map yet: the insertion is the \<^verbatim>\<open>else\<close> branch of the first \<^verbatim>\<open>find\<close>. With listener
  1 registered for type 5, adding listener 2 for type 5 returns true, leaves the registry as
  it was, and an event of type 5 then reaches listener 1 only.
\<close>

theorem addListener_second_subscription_lost:
  "addListener 5 2 11 (initialSystem\<lparr>listeners := [5 \<mapsto> [(1, 10)]]\<rparr>)
     = (True, initialSystem\<lparr>listeners := [5 \<mapsto> [(1, 10)]]\<rparr>)
   \<and> triggerEvent (\<lambda>fn e. []) (Some (Event 5 (Plain 0)))
         (snd (addListener 5 2 11 (initialSystem\<lparr>listeners := [5 \<mapsto> [(1, 10)]]\<rparr>)))
     = Inr (initialSystem\<lparr>listeners := [5 \<mapsto> [(1, 10)]],
              triggered := [Event 5 (Plain 0)], invoked := [(1, 10, Event 5 (Plain 0))]\<rparr>)"
  by (simp add: addListener_def initialSystem_def triggerEvent_def call_def liveKeys_def)

text \<open>
  C5. The claim: \<open>removeListener\<close> on a registered pair removes the entry and returns
  true. The code erases the entry and returns false: its only \<^verbatim>\<open>return\<close> is
  \<^verbatim>\<open>return false\<close>.
\<close>

theorem removeListener_reports_failure:
  "removeListener 5 1 (initialSystem\<lparr>listeners := [5 \<mapsto> [(1, 10)]]\<rparr>)
     = (False, initialSystem\<lparr>listeners := [5 \<mapsto> []]\<rparr>)"
  by (simp add: removeListener_def initialSystem_def erase_key_def)

text \<open>
  C7. When the pair (event type \<open>T\<close>, callback identifier \<open>S\<close>) is registered, a second
  \<open>addListener\<close> for it returns false and changes nothing, so every later delivery does
  what it would have done without the call.
\<close>

theorem addListener_duplicate_rejected:
  assumes "listeners s T = Some bucket" and "map_of bucket S = Some cb"
  shows "addListener T S cb2 s = (False, s)
     \<and> triggerEvent beh evt (snd (addListener T S cb2 s)) = triggerEvent beh evt s"
  using assms by (simp add: addListener_def)

text \<open>C7, at listener 1 registered for type 5 and a second registration of the pair.\<close>

theorem addListener_duplicate_rejected_witness:
  "listeners (initialSystem\<lparr>listeners := [5 \<mapsto> [(1, 10)]]\<rparr>) 5 = Some [(1, 10)]
   \<and> map_of [(1 :: EventCallbackID, 10 :: EventCallback)] 1 = Some 10
   \<and> addListener 5 1 11 (initialSystem\<lparr>listeners := [5 \<mapsto> [(1, 10)]]\<rparr>)
       = (False, initialSystem\<lparr>listeners := [5 \<mapsto> [(1, 10)]]\<rparr>)"
  using addListener_duplicate_rejected
    [of "initialSystem\<lparr>listeners := [5 \<mapsto> [(1, 10)]]\<rparr>" 5 "[(1, 10)]" 1 10 11]
  by simp

text \<open>
  C8. The claim: the \<open>n\<close>-th call of the generator returns \<open>n\<close> and no identifier is
  issued twice. The counter is a machine integer: in 32 bits, call number \<open>2^32\<close> returns 0
  and call number \<open>2^32 + 1\<close> returns 1 again.
\<close>

theorem nthCallbackID_wraps_around:
  "unat (fst (nthCallbackID 4294967296 :: 32 word \<times> 32 word)) \<noteq> 4294967296
   \<and> fst (nthCallbackID 4294967297 :: 32 word \<times> 32 word)
       = fst (nthCallbackID 1 :: 32 word \<times> 32 word)"
  unfolding nthCallbackID_of_nat by simp

text \<open>
  C8, as amended. For a counter of any width: as long as \<open>n\<close> is below two to the width,
  the \<open>n\<close>-th call returns \<open>n\<close>, the next call returns one more, and no earlier call has
  returned the same identifier.
\<close>

theorem nthCallbackID_below_wrap:
  assumes "n < 2 ^ LENGTH('a)"
  shows "unat (fst (nthCallbackID n :: 'a::len word \<times> 'a word)) = n
     \<and> fst (nthCallbackID (Suc n) :: 'a word \<times> 'a word) = fst (nthCallbackID n :: 'a word \<times> 'a word) + 1
     \<and> (\<forall>m. m < n \<longrightarrow> fst (nthCallbackID m :: 'a word \<times> 'a word) \<noteq> fst (nthCallbackID n :: 'a word \<times> 'a word))"
proof (intro conjI allI impI)
  show "unat (fst (nthCallbackID n :: 'a word \<times> 'a word)) = n"
    using assms by (simp add: nthCallbackID_of_nat unat_of_nat)
  show "fst (nthCallbackID (Suc n) :: 'a word \<times> 'a word) = fst (nthCallbackID n :: 'a word \<times> 'a word) + 1"
    by (simp add: nthCallbackID_of_nat)
next
  fix m assume "m < n"
  with assms have "unat (of_nat m :: 'a word) = m" "unat (of_nat n :: 'a word) = n"
    by (simp_all add: unat_of_nat)
  with \<open>m < n\<close> have "(of_nat m :: 'a word) \<noteq> of_nat n" by auto
  then show "fst (nthCallbackID m :: 'a word \<times> 'a word) \<noteq> fst (nthCallbackID n :: 'a word \<times> 'a word)"
    by (simp add: nthCallbackID_of_nat)
qed

text \<open>C8, as amended, at the third call of a 32-bit counter.\<close>

theorem nthCallbackID_below_wrap_witness:
  "(3 :: nat) < 2 ^ LENGTH(32)
   \<and> unat (fst (nthCallbackID 3 :: 32 word \<times> 32 word)) = 3
   \<and> fst (nthCallbackID 1 :: 32 word \<times> 32 word) = 1
   \<and> fst (nthCallbackID 2 :: 32 word \<times> 32 word) \<noteq> fst (nthCallbackID 3 :: 32 word \<times> 32 word)"
  using nthCallbackID_below_wrap [where 'a = 32 and n = 3]
  by (simp add: nthCallbackID_of_nat)

subsection \<open>Aborting\<close>

text \<open>
  C3. The claim: \<open>abortAllEvents\<close> removes every event of the type from the active queue
  and returns how many it removed. The code calls \<^verbatim>\<open>std::remove_if\<close> and drops its result,
  so nothing is erased, the size does not change and the count is zero: with one event of
  type 1 in the active queue, \<open>abortAllEvents 1\<close> returns 0 and the event is still there.
\<close>

theorem abortAllEvents_removes_nothing:
  "abortAllEvents 1 (initialSystem\<lparr>queues := (\<lambda>i. [])(0 := [Some (Event 1 (Plain 0))])\<rparr>)
     = Inr (0, initialSystem\<lparr>queues := (\<lambda>i. [])(0 := [Some (Event 1 (Plain 0))])\<rparr>)"
  by (simp add: abortAllEvents_def initialSystem_def remove_if_def hasID_def remove_if_loop.simps)

subsection \<open>Immediate delivery\<close>

text \<open>
  C10. The claim: for every non-null event, \<open>triggerEvent\<close> leaves the registry and both
  queues as they were. The listeners run inside \<open>triggerEvent\<close> and may call back into the
  event system: with listener 1 registered for type 5 through \<open>addListener\<close>, and a
  listener that queues an event of type 6 when it is called, delivering an event of type 5
  leaves the event of type 6 in the active queue, which was empty before.
\<close>

theorem triggerEvent_listener_changes_queue:
  "triggerEvent (\<lambda>fn e. [QueueEvent (Some (Event 6 (Plain 1)))]) (Some (Event 5 (Plain 0)))
      (snd (addListener 5 1 10 initialSystem))
    = Inr (initialSystem\<lparr>listeners := [5 \<mapsto> [(1, 10)]],
             queues := (\<lambda>i. [])(0 := [Some (Event 6 (Plain 1))]),
             queued := [Event 6 (Plain 1)],
             triggered := [Event 5 (Plain 0)],
             invoked := [(1, 10, Event 5 (Plain 0))]\<rparr>)
   \<and> queues (snd (addListener 5 1 10 initialSystem)) 0 = []"
  by (simp add: addListener_def initialSystem_def triggerEvent_def call_def liveKeys_def
      queueEvent_def)

text \<open>
  C10, as amended. For every non-null event whose listeners (the entries of the map of its
  type) make no call back into the event system, \<open>triggerEvent\<close> succeeds and changes
  neither the registry nor a queue nor the index of the active queue: the state it returns
  is the state it was given, with the event added to the history of deliveries and one
  call added to the history of calls for each entry of the map, in the order of the map.
\<close>

theorem triggerEvent_only_invokes:
  assumes "\<forall>l \<in> set (case listeners s (getID e) of None \<Rightarrow> [] | Some bucket \<Rightarrow> bucket).
             beh (snd l) e = []"
  shows "triggerEvent beh (Some e) s =
     Inr (s\<lparr>triggered := triggered s @ [e],
            invoked := invoked s @ map (\<lambda>l. (fst l, snd l, e))
              (case listeners s (getID e) of None \<Rightarrow> [] | Some bucket \<Rightarrow> bucket)\<rparr>)"
  using assms by (rule triggerEvent_silent)

text \<open>
  C10, as amended, at the state that \<open>addListener 5 1 10\<close> and then \<open>queueEvent\<close> of
  an event of type 6 reach from the initial state, and a listener that does nothing.
\<close>

theorem triggerEvent_only_invokes_witness:
  "queueEvent (Some (Event 6 (Plain 1))) (snd (addListener 5 1 10 initialSystem))
    = Inr (initialSystem\<lparr>listeners := [5 \<mapsto> [(1, 10)]],
                     queues := (\<lambda>i. [])(0 := [Some (Event 6 (Plain 1))]),
                     queued := [Event 6 (Plain 1)]\<rparr>)
   \<and> triggerEvent (\<lambda>fn e. []) (Some (Event 5 (Plain 0)))
      (initialSystem\<lparr>listeners := [5 \<mapsto> [(1, 10)]],
                     queues := (\<lambda>i. [])(0 := [Some (Event 6 (Plain 1))]),
                     queued := [Event 6 (Plain 1)]\<rparr>)
    = Inr (initialSystem\<lparr>listeners := [5 \<mapsto> [(1, 10)]],
                     queues := (\<lambda>i. [])(0 := [Some (Event 6 (Plain 1))]),
                     queued := [Event 6 (Plain 1)],
                     triggered := [Event 5 (Plain 0)],
                     invoked := [(1, 10, Event 5 (Plain 0))]\<rparr>)"
  using triggerEvent_only_invokes [of
      "initialSystem\<lparr>listeners := [5 \<mapsto> [(1, 10)]],
                     queues := (\<lambda>i. [])(0 := [Some (Event 6 (Plain 1))]),
                     queued := [Event 6 (Plain 1)]\<rparr>"
      "Event 5 (Plain 0)" "\<lambda>fn e. []"]
  by (simp add: initialSystem_def addListener_def queueEvent_def)

subsection \<open>The keyboard\<close>

text \<open>
  C9. For each of the five controls: when the key is not held, a key-down signal sets the
  flag and queues exactly one start event, and a second key-down signal right after it
  changes nothing, so the two signals queue one event. When the key is held, a key-down
  signal changes nothing, and a key-up signal clears the flag and queues one stop event;
  for the fire key, which has no stop event, it only clears the flag.
\<close>

theorem dispatchKeyboardEvent_edges:
  "(\<forall>(code, k, action) \<in> {(Keyboard_Up, UP, MoveUp), (Keyboard_Down, DOWN, MoveDown),
        (Keyboard_Left, LEFT, MoveLeft), (Keyboard_Right, RIGHT, MoveRight)}.
      (\<not> keyStates s k \<longrightarrow>
         (\<exists>s1. dispatchKeyboardEvent inputID (KeyPressed code) s = Inr s1
            \<and> dispatchKeyboardEvent inputID (KeyPressed code) s1 = Inr s1
            \<and> s1 = s\<lparr>keyStates := (keyStates s)(k := True),
                     queues := (queues s)(activeQueue s :=
                        queues s (activeQueue s) @ [InputEvent inputID action (Some Start)]),
                     queued := queued s @ [Event (inputID action (Some Start)) (Input action (Some Start))]\<rparr>))
    \<and> (keyStates s k \<longrightarrow>
         dispatchKeyboardEvent inputID (KeyPressed code) s = Inr s
         \<and> dispatchKeyboardEvent inputID (KeyReleased code) s =
             Inr (s\<lparr>keyStates := (keyStates s)(k := False),
                    queues := (queues s)(activeQueue s :=
                       queues s (activeQueue s) @ [InputEvent inputID action (Some Stop)]),
                    queued := queued s @ [Event (inputID action (Some Stop)) (Input action (Some Stop))]\<rparr>)))
   \<and> (\<not> keyStates s FIRE \<longrightarrow>
         (\<exists>s1. dispatchKeyboardEvent inputID (KeyPressed Keyboard_Space) s = Inr s1
            \<and> dispatchKeyboardEvent inputID (KeyPressed Keyboard_Space) s1 = Inr s1
            \<and> s1 = s\<lparr>keyStates := (keyStates s)(FIRE := True),
                     queues := (queues s)(activeQueue s :=
                        queues s (activeQueue s) @ [InputEvent inputID Fire None]),
                     queued := queued s @ [Event (inputID Fire None) (Input Fire None)]\<rparr>))
   \<and> (keyStates s FIRE \<longrightarrow>
         dispatchKeyboardEvent inputID (KeyPressed Keyboard_Space) s = Inr s
         \<and> dispatchKeyboardEvent inputID (KeyReleased Keyboard_Space) s =
             Inr (s\<lparr>keyStates := (keyStates s)(FIRE := False)\<rparr>))"
  by (auto simp: moveKey_def fireKey_def queueEvent_def InputEvent_def)

text \<open>C9, from the initial state (no key held) and from a state with every key held.\<close>

theorem dispatchKeyboardEvent_edges_witness:
  "dispatchKeyboardEvent (\<lambda>a st. 7) (KeyPressed Keyboard_Up) initialSystem =
     Inr (initialSystem\<lparr>keyStates := (\<lambda>k. False)(UP := True),
            queues := (\<lambda>i. [])(0 := [Some (Event 7 (Input MoveUp (Some Start)))]),
            queued := [Event 7 (Input MoveUp (Some Start))]\<rparr>)
   \<and> dispatchKeyboardEvent (\<lambda>a st. 7) (KeyPressed Keyboard_Up)
       (initialSystem\<lparr>keyStates := (\<lambda>k. False)(UP := True),
            queues := (\<lambda>i. [])(0 := [Some (Event 7 (Input MoveUp (Some Start)))]),
            queued := [Event 7 (Input MoveUp (Some Start))]\<rparr>) =
     Inr (initialSystem\<lparr>keyStates := (\<lambda>k. False)(UP := True),
            queues := (\<lambda>i. [])(0 := [Some (Event 7 (Input MoveUp (Some Start)))]),
            queued := [Event 7 (Input MoveUp (Some Start))]\<rparr>)
   \<and> dispatchKeyboardEvent (\<lambda>a st. 7) (KeyReleased Keyboard_Up)
       (initialSystem\<lparr>keyStates := (\<lambda>k. True)\<rparr>) =
     Inr (initialSystem\<lparr>keyStates := (\<lambda>k. True)(UP := False),
            queues := (\<lambda>i. [])(0 := [Some (Event 7 (Input MoveUp (Some Stop)))]),
            queued := [Event 7 (Input MoveUp (Some Stop))]\<rparr>)
   \<and> dispatchKeyboardEvent (\<lambda>a st. 7) (KeyPressed Keyboard_Space) initialSystem =
     Inr (initialSystem\<lparr>keyStates := (\<lambda>k. False)(FIRE := True),
            queues := (\<lambda>i. [])(0 := [Some (Event 7 (Input Fire None))]),
            queued := [Event 7 (Input Fire None)]\<rparr>)
   \<and> dispatchKeyboardEvent (\<lambda>a st. 7) (KeyReleased Keyboard_Space)
       (initialSystem\<lparr>keyStates := (\<lambda>k. True)\<rparr>) =
     Inr (initialSystem\<lparr>keyStates := (\<lambda>k. True)(FIRE := False)\<rparr>)"
  using dispatchKeyboardEvent_edges [of initialSystem "\<lambda>a st. 7"]
    dispatchKeyboardEvent_edges [of "initialSystem\<lparr>keyStates := (\<lambda>k. True)\<rparr>" "\<lambda>a st. 7"]
  by (simp add: initialSystem_def InputEvent_def)

subsection \<open>The budget\<close>

text \<open>
  C2. The claim: when the budget runs out with events left in the queue being drained,
  they go to the front of the other queue in their original order and the next drain
  delivers them in that order. The code moves them with \<^verbatim>\<open>std::front_inserter\<close>, which
  pushes them one by one at the front, so they arrive reversed (see
  \<open>processQueue_first_over\<close>). With events 1, 2, 3 queued and the budget exceeded after the
  first delivery, the other queue holds 3, 2, and the next drain delivers 3 before 2.
\<close>

theorem processQueue_carry_over_reversed:
  "processQueue (\<lambda>fn e. []) (\<lambda>n. 1) 0
     (initialSystem\<lparr>queues := (\<lambda>i. [])(0 := [Some (Event 1 (Plain 1)), Some (Event 2 (Plain 2)), Some (Event 3 (Plain 3))])\<rparr>)
   = Some (Inr (initialSystem\<lparr>queues := (\<lambda>i. [])(1 := [Some (Event 3 (Plain 3)), Some (Event 2 (Plain 2))], 0 := []),
        activeQueue := 1, triggered := [Event 1 (Plain 1)]\<rparr>))
   \<and> processQueue (\<lambda>fn e. []) (\<lambda>n. 0) 1
     (initialSystem\<lparr>queues := (\<lambda>i. [])(1 := [Some (Event 3 (Plain 3)), Some (Event 2 (Plain 2))], 0 := []),
        activeQueue := 1, triggered := [Event 1 (Plain 1)]\<rparr>)
   = Some (Inr (initialSystem\<lparr>queues := (\<lambda>i. []),
        activeQueue := 0, triggered := [Event 1 (Plain 1), Event 3 (Plain 3), Event 2 (Plain 2)]\<rparr>))"
  by (simp add: processQueue_def initialSystem_def processQueue_loop.simps triggerEvent_def
      front_insert_all_def Let_def fun_eq_iff)




subsection \<open>Events queued during a drain\<close>

text \<open>
  C6. \<open>processQueue\<close> returns. It flips the index of the active queue before it delivers
  anything, and at its end the queue it drained is empty. The events it delivered are a
  prefix of what that queue held at the start, so no event queued during the drain is
  delivered in it. When no listener aborts events, the queue that the next drain takes
  holds, in this order: the events carried over, what it held before, and every event
  queued during the drain, in the order of the calls of \<open>queueEvent\<close>.
\<close>

theorem processQueue_defers_queued_events:
  "\<exists>r. processQueue beh timer maxMs s = Some r \<and>
     (\<forall>s'. r = Inr s' \<longrightarrow>
        activeQueue s' = (activeQueue s + 1) AND 1 \<and> activeQueue s' \<noteq> activeQueue s
        \<and> queues s' (activeQueue s) = []
        \<and> (\<exists>ds. triggered s' = triggered s @ ds
             \<and> map Some ds = take (length ds) (queues s (activeQueue s))
             \<and> ((\<forall>fn e eid. AbortEvent eid \<notin> set (beh fn e) \<and> AbortAllEvents eid \<notin> set (beh fn e)) \<longrightarrow>
                 (\<exists>carried qs. queued s' = queued s @ qs
                    \<and> queues s' (activeQueue s') = carried @ queues s (activeQueue s') @ map Some qs
                    \<and> length carried = length (queues s (activeQueue s)) - length ds
                    \<and> set carried = set (drop (length ds) (queues s (activeQueue s)))))))"
proof -
  let ?q = "queues s (activeQueue s)"
  let ?noabort = "\<forall>fn e eid. AbortEvent eid \<notin> set (beh fn e) \<and> AbortAllEvents eid \<notin> set (beh fn e)"
  from processQueue_main [of beh timer maxMs s]
  obtain r where r: "processQueue beh timer maxMs s = Some r"
    and post: "\<And>s'. r = Inr s' \<Longrightarrow>
        activeQueue s' = (activeQueue s + 1) AND 1 \<and> queues s' (activeQueue s) = [] \<and>
        (\<exists>ds. triggered s' = triggered s @ ds \<and> map Some ds = take (length ds) ?q
           \<and> (?q \<noteq> [] \<longrightarrow> ds \<noteq> [])
           \<and> (\<forall>i. 0 < i \<and> i < length ds \<longrightarrow> timer i \<le> maxMs)
           \<and> (length ds < length ?q \<longrightarrow> maxMs < timer (length ds))
           \<and> (?noabort \<longrightarrow>
                (\<exists>qs. queued s' = queued s @ qs \<and>
                   queues s' ((activeQueue s + 1) AND 1) =
                     rev (drop (length ds) ?q) @ queues s ((activeQueue s + 1) AND 1) @ map Some qs)))"
    by blast
  have "activeQueue s' = (activeQueue s + 1) AND 1 \<and> activeQueue s' \<noteq> activeQueue s
        \<and> queues s' (activeQueue s) = []
        \<and> (\<exists>ds. triggered s' = triggered s @ ds
             \<and> map Some ds = take (length ds) ?q
             \<and> (?noabort \<longrightarrow>
                 (\<exists>carried qs. queued s' = queued s @ qs
                    \<and> queues s' (activeQueue s') = carried @ queues s (activeQueue s') @ map Some qs
                    \<and> length carried = length ?q - length ds
                    \<and> set carried = set (drop (length ds) ?q))))"
    if rs: "r = Inr s'" for s'
  proof -
    from post [OF rs] obtain ds where a: "activeQueue s' = (activeQueue s + 1) AND 1"
      and q: "queues s' (activeQueue s) = []"
      and t: "triggered s' = triggered s @ ds"
      and pre: "map Some ds = take (length ds) ?q"
      and car: "?noabort \<longrightarrow> (\<exists>qs. queued s' = queued s @ qs \<and>
                   queues s' ((activeQueue s + 1) AND 1) =
                     rev (drop (length ds) ?q) @ queues s ((activeQueue s + 1) AND 1) @ map Some qs)"
      by blast
    have car': "?noabort \<longrightarrow>
                 (\<exists>carried qs. queued s' = queued s @ qs
                    \<and> queues s' (activeQueue s') = carried @ queues s (activeQueue s') @ map Some qs
                    \<and> length carried = length ?q - length ds
                    \<and> set carried = set (drop (length ds) ?q))"
    proof
      assume ?noabort
      with car obtain qs where "queued s' = queued s @ qs"
        "queues s' ((activeQueue s + 1) AND 1) =
                     rev (drop (length ds) ?q) @ queues s ((activeQueue s + 1) AND 1) @ map Some qs"
        by blast
      with a have "queued s' = queued s @ qs
          \<and> queues s' (activeQueue s') = rev (drop (length ds) ?q) @ queues s (activeQueue s') @ map Some qs
          \<and> length (rev (drop (length ds) ?q)) = length ?q - length ds
          \<and> set (rev (drop (length ds) ?q)) = set (drop (length ds) ?q)"
        by simp
      then show "\<exists>carried qs. queued s' = queued s @ qs
                    \<and> queues s' (activeQueue s') = carried @ queues s (activeQueue s') @ map Some qs
                    \<and> length carried = length ?q - length ds
                    \<and> set carried = set (drop (length ds) ?q)"
        by blast
    qed
    have "activeQueue s' \<noteq> activeQueue s" using a flip_neq [of "activeQueue s"] by simp
    with a q t pre car' show ?thesis by blast
  qed
  with r show ?thesis by blast
qed

text \<open>C6, at a listener of type 5 that queues an event of type 6 when it is called.\<close>

theorem processQueue_defers_queued_events_witness:
  "processQueue (\<lambda>fn e. [QueueEvent (Some (Event 6 (Plain 1)))]) (\<lambda>n. 0) 1
     (initialSystem\<lparr>listeners := [5 \<mapsto> [(1, 10)]],
        queues := (\<lambda>i. [])(0 := [Some (Event 5 (Plain 0))])\<rparr>)
   = Some (Inr (initialSystem\<lparr>listeners := [5 \<mapsto> [(1, 10)]],
        queues := (\<lambda>i. [])(0 := [], 1 := [Some (Event 6 (Plain 1))]),
        activeQueue := 1, queued := [Event 6 (Plain 1)], triggered := [Event 5 (Plain 0)],
        invoked := [(1, 10, Event 5 (Plain 0))]\<rparr>))"
  using processQueue_defers_queued_events [of "\<lambda>fn e. [QueueEvent (Some (Event 6 (Plain 1)))]" "\<lambda>n. 0" 1
     "initialSystem\<lparr>listeners := [5 \<mapsto> [(1, 10)]],
        queues := (\<lambda>i. [])(0 := [Some (Event 5 (Plain 0))])\<rparr>"]
  by (simp add: processQueue_def initialSystem_def processQueue_loop.simps triggerEvent_def
      call_def liveKeys_def queueEvent_def front_insert_all_def Let_def)

end
